theory Spec2Isabelle
  imports Main "HOL-Library.Word"
begin

unbundle bit_operations_syntax

section \<open>The scalar field\<close>

text \<open>
  Modelled from the spec: the element type \<open>fr.Element\<close> and its operations belong to the
  external field library (gnark-crypto, bls12-381/fr). An element is represented by its
  canonical residue, a natural number below the modulus of the scalar field of BLS12-381;
  \<open>fr_Mul\<close>, \<open>fr_Square\<close> and \<open>fr_One\<close> are the library's \<open>Mul\<close>, \<open>Square\<close> and
  \<open>One\<close>/\<open>SetOne\<close>, and \<open>fr_Exp\<close> is its general exponentiation \<open>Exp\<close>, the independent
  routine the tests compare with. The zero value of the type (what \<open>make\<close> fills a
  fresh slice with) is the residue 0.
\<close>

type_synonym fr = nat

definition fr_modulus :: nat where
  "fr_modulus = 52435875175126190479447740508185965837690552500527637822603658699938581184513"

definition fr_zero :: fr where
  "fr_zero = 0"

definition fr_One :: fr where
  "fr_One = 1"

definition fr_Mul :: "fr \<Rightarrow> fr \<Rightarrow> fr" where
  "fr_Mul a b = (a * b) mod fr_modulus"

definition fr_Square :: "fr \<Rightarrow> fr" where
  "fr_Square a = fr_Mul a a"

definition fr_Exp :: "fr \<Rightarrow> nat \<Rightarrow> fr" where
  "fr_Exp x k = x ^ k mod fr_modulus"

section \<open>Run-time failures\<close>

text \<open>
  A Go panic ends the call. \<open>Panic\<close> carries the message of an explicit \<open>panic(...)\<close>;
  \<open>IndexOutOfRange\<close> is the run-time panic of indexing a slice out of range (index,
  length) and \<open>MakeSliceLenOutOfRange\<close> that of \<open>make\<close> with a negative length.
  \<open>AllocationFailed\<close> is \<open>make\<close> with a length the runtime cannot allocate: the same
  panic of \<open>make\<close> when the size exceeds what the runtime can address, the fatal
  out-of-memory error of the runtime below that.
\<close>

datatype error =
    Panic string
  | IndexOutOfRange nat nat
  | MakeSliceLenOutOfRange
  | AllocationFailed

section \<open>utils.go\<close>

subsection \<open>ComputePowers\<close>

text \<open>
  The loop \<open>for i := 1; i < n; i++ { powers[i].Mul(&powers[i-1], &x) }\<close>, with the bounds
  checks of both index expressions written out.
\<close>

function powers_loop :: "fr \<Rightarrow> nat \<Rightarrow> nat \<Rightarrow> fr list \<Rightarrow> error + fr list" where
  "powers_loop x n i powers =
     (if i < n then
        (if \<not> i - 1 < length powers then Inl (IndexOutOfRange (i - 1) (length powers))
         else if \<not> i < length powers then Inl (IndexOutOfRange i (length powers))
         else powers_loop x n (i + 1) (powers[i := fr_Mul (powers ! (i - 1)) x]))
      else Inr powers)"
  by pat_completeness auto
termination
  by (relation "measure (\<lambda>(x, n, i, powers). n - i)") auto

declare powers_loop.simps [simp del]

text \<open>
  \<open>ComputePowers(x, n)\<close>: \<open>make([]fr.Element, n)\<close> panics for a negative \<open>n\<close> and fails
  for a length beyond what the runtime can allocate. That bound depends on the platform
  and on the memory of the running process; it is the parameter \<open>max_len\<close>, about which
  nothing is assumed. \<open>powers[0].SetOne()\<close> indexes the fresh slice at 0 before the loop
  runs.
\<close>

definition ComputePowers :: "nat \<Rightarrow> fr \<Rightarrow> int \<Rightarrow> error + fr list" where
  "ComputePowers max_len x n =
     (if n < 0 then Inl MakeSliceLenOutOfRange
      else if int max_len < n then Inl AllocationFailed
      else let powers = replicate (nat n) fr_zero in
        if \<not> 0 < length powers then Inl (IndexOutOfRange 0 (length powers))
        else powers_loop x (nat n) 1 (powers[0 := fr_One]))"

subsection \<open>IsPowerOfTwo\<close>

text \<open>\<open>value > 0 && (value&(value-1) == 0)\<close> on \<open>uint64\<close>; the subtraction wraps.\<close>

definition IsPowerOfTwo :: "64 word \<Rightarrow> bool" where
  "IsPowerOfTwo v = (v > 0 \<and> v AND (v - 1) = 0)"

subsection \<open>Pow2\<close>

text \<open>
  \<open>float64(exp)\<close>: a \<open>uint64\<close> converts to the nearest double, ties to even. A double
  has 53 significant bits, so a value of more than 53 bits loses its low bits. The
  result is always a non-negative integer; the model represents the double by that integer.
\<close>

fun bitlen :: "nat \<Rightarrow> nat" where
  "bitlen n = (if n = 0 then 0 else Suc (bitlen (n div 2)))"

declare bitlen.simps [simp del]

definition float64_of_uint64 :: "64 word \<Rightarrow> nat" where
  "float64_of_uint64 v =
     (let n = unat v; l = bitlen n in
      if l \<le> 53 then n
      else let sh = l - 53; q = n div 2 ^ sh; r = n mod 2 ^ sh; half = 2 ^ (sh - 1) in
        (if r > half \<or> (r = half \<and> odd q) then q + 1 else q) * 2 ^ sh)"

text \<open>
  \<open>int(math.Log2(f))\<close> for such a double \<open>f\<close>. \<open>math.Log2\<close> of the Go standard library
  splits its argument with \<open>Frexp\<close> into a fraction in [1/2, 1) and an exponent, answers
  \<open>float64(exp - 1)\<close> when the fraction is exactly 1/2, and otherwise
  \<open>Log(frac)*(1/Ln2) + float64(exp)\<close>. For a positive integer \<open>f\<close> the exponent is the
  bit length of \<open>f\<close> and the fraction is 1/2 exactly when \<open>f = 2 ^ (exp - 1)\<close>. The
  conversion to \<open>int\<close> of the small integer \<open>exp - 1\<close> is exact. The other branch
  rounds a transcendental logarithm; its truncated result is the parameter
  \<open>log_inexact\<close>, about which nothing is assumed.
\<close>

definition Log2_int :: "(nat \<Rightarrow> int) \<Rightarrow> nat \<Rightarrow> int" where
  "Log2_int log_inexact f =
     (let exp = bitlen f in
      if 0 < f \<and> f = 2 ^ (exp - 1) then int exp - 1 else log_inexact f)"

text \<open>The loop \<open>for i := 0; i < pow; i++ { result.Square(&result) }\<close>.\<close>

function square_loop :: "int \<Rightarrow> int \<Rightarrow> fr \<Rightarrow> fr" where
  "square_loop i pow result =
     (if i < pow then square_loop (i + 1) pow (fr_Square result) else result)"
  by pat_completeness auto
termination
  by (relation "measure (\<lambda>(i, pow, result). nat (pow - i))") auto

declare square_loop.simps [simp del]

definition Pow2 :: "(nat \<Rightarrow> int) \<Rightarrow> fr \<Rightarrow> 64 word \<Rightarrow> error + fr" where
  "Pow2 log_inexact x exp =
     (if \<not> IsPowerOfTwo exp then
        Inl (Panic ''The domain should always be a power of two, for our use-case'')
      else let pow = Log2_int log_inexact (float64_of_uint64 exp) in
        if pow = 0 then Inr fr_One
        else Inr (square_loop 0 pow x))"

section \<open>Functions of the package that are not among the sources\<close>

text \<open>
  The tests of the package exercise \<open>BitReverseRoots\<close>, \<open>BatchFromJacobian\<close> and
  \<open>ReduceCanonical\<close>, which live outside \<open>utils.go\<close>; the definitions of this section
  follow the description of each function in the specification.
\<close>

subsection \<open>BitReverseRoots\<close>

text \<open>
  Modelled from the spec: \<open>bitrev(i, bits)\<close>, the index \<open>i\<close> with its bits reversed within a
  field of \<open>bits\<close> bits. The lowest bit of \<open>i\<close> becomes the highest of the result.
\<close>

fun bitrev :: "nat \<Rightarrow> nat \<Rightarrow> nat" where
  "bitrev 0 i = 0"
| "bitrev (Suc b) i = (i mod 2) * 2 ^ b + bitrev b (i div 2)"

text \<open>
  Modelled from the spec: the in-place pass of \<open>BitReverseRoots\<close> over the indices
  \<open>i = 0, ..., n - 1\<close>, which swaps the elements at \<open>i\<close> and \<open>bitrev(i)\<close> only where
  \<open>i < bitrev(i)\<close>, so that no pair is swapped twice.
\<close>

function bitrev_loop :: "nat \<Rightarrow> nat \<Rightarrow> nat \<Rightarrow> fr list \<Rightarrow> fr list" where
  "bitrev_loop bits n i seq =
     (if i < n then
        (let irev = bitrev bits i in
         bitrev_loop bits n (i + 1)
           (if i < irev then seq[i := seq ! irev, irev := seq ! i] else seq))
      else seq)"
  by pat_completeness auto
termination
  by (relation "measure (\<lambda>(bits, n, i, seq). n - i)") auto

declare bitrev_loop.simps [simp del]

text \<open>
  Modelled from the spec: \<open>BitReverseRoots(seq)\<close>, the source of which is missing. The length
  \<open>n\<close> must be a power of two; any other length is fatal. The bit width is \<open>log2(n)\<close>,
  one less than the bit length of \<open>n\<close>.
\<close>

definition BitReverseRoots :: "fr list \<Rightarrow> error + fr list" where
  "BitReverseRoots seq =
     (let n = length seq in
      if \<not> (0 < n \<and> n = 2 ^ (bitlen n - 1)) then
        Inl (Panic ''the length of the sequence is not a power of two'')
      else Inr (bitrev_loop (bitlen n - 1) n 0 seq))"

subsection \<open>BatchFromJacobian\<close>

text \<open>
  Modelled from the spec: a projective point in Jacobian coordinates and an affine point,
  over the base field of the curve. The field belongs to the external curve library and
  is a type parameter of class \<open>field\<close> (where, as in the library, the inverse of 0 is 0).
  The point at infinity is the Jacobian point with a zero z-coordinate.
\<close>

datatype 'a G1Jac = G1Jac (jac_X: 'a) (jac_Y: 'a) (jac_Z: 'a)

datatype 'a G1Affine = G1Affine (aff_X: 'a) (aff_Y: 'a)

text \<open>
  Modelled from the spec: the single-point conversion of the external curve library,
  \<open>(X / Z^2, Y / Z^3)\<close> with one inversion per point. The affine representation of the
  point at infinity is fixed by that library; it is the parameter \<open>infinity\<close>.
\<close>

definition FromJacobian :: "'a::field G1Affine \<Rightarrow> 'a G1Jac \<Rightarrow> 'a G1Affine" where
  "FromJacobian infinity p =
     (if jac_Z p = 0 then infinity
      else let a = inverse (jac_Z p); b = a * a
           in G1Affine (jac_X p * b) (jac_Y p * b * a))"

text \<open>
  Modelled from the spec: Montgomery's batch inversion over the z-coordinates. On the way
  down the list \<open>acc\<close> is the running product of the nonzero coordinates seen so far, and a
  zero coordinate is skipped, so that it never enters the product. At the end the product
  is inverted, once. On the way back \<open>acc_inverse\<close> is the inverse of the product up to and
  including the current point: multiplied by the product before the point it gives the
  inverse of the point's coordinate, multiplied by the coordinate it is handed on to the
  point before.
\<close>

fun batch_invert :: "'a::field \<Rightarrow> 'a list \<Rightarrow> 'a \<times> 'a list" where
  "batch_invert acc [] = (inverse acc, [])"
| "batch_invert acc (z # zs) =
     (if z = 0 then
        (let (acc_inverse, invs) = batch_invert acc zs in (acc_inverse, 0 # invs))
      else
        (let (acc_inverse, invs) = batch_invert (acc * z) zs
         in (acc_inverse * z, acc * acc_inverse # invs)))"

text \<open>
  Modelled from the spec: \<open>BatchFromJacobian(points)\<close>, the source of which is missing. A
  point at infinity maps directly to the affine sentinel; every other point is converted
  with its inverse from the batch.
\<close>

definition BatchFromJacobian :: "'a::field G1Affine \<Rightarrow> 'a G1Jac list \<Rightarrow> 'a G1Affine list" where
  "BatchFromJacobian infinity points =
     (let (acc_inverse, invs) = batch_invert 1 (map jac_Z points)
      in map2 (\<lambda>p a. if jac_Z p = 0 then infinity
                     else let b = a * a in G1Affine (jac_X p * b) (jac_Y p * b * a))
           points invs)"

subsection \<open>ReduceCanonical\<close>

text \<open>
  Modelled from the spec: reading a big-endian byte buffer as an arbitrary-precision
  unsigned integer, byte by byte from the most significant one.
\<close>

fun BigInt_SetBytes :: "nat \<Rightarrow> 8 word list \<Rightarrow> nat" where
  "BigInt_SetBytes acc [] = acc"
| "BigInt_SetBytes acc (b # bs) = BigInt_SetBytes (acc * 256 + unat b) bs"

text \<open>
  Modelled from the spec: \<open>ReduceCanonical(bytes)\<close>, the source of which is missing. The
  buffer is read as an integer and compared with the modulus; the result is the reduced
  element and the flag, true when the integer was below the modulus already.
\<close>

definition ReduceCanonical :: "8 word list \<Rightarrow> fr \<times> bool" where
  "ReduceCanonical serScalar =
     (let value = BigInt_SetBytes 0 serScalar
      in (value mod fr_modulus, value < fr_modulus))"

text \<open>The integer a big-endian buffer denotes, as a positional sum.\<close>

definition big_endian_value :: "8 word list \<Rightarrow> nat" where
  "big_endian_value bs = (\<Sum>i<length bs. unat (bs ! i) * 256 ^ (length bs - 1 - i))"

section \<open>Properties of utils.go\<close>

lemma fr_modulus_gt1: "1 < fr_modulus"
  by (simp add: fr_modulus_def)

lemma nat_and_pred_a: "0 < (n::nat) \<Longrightarrow> (n AND (n - 1) = 0) \<longleftrightarrow> (\<exists>k. n = 2 ^ k)"
proof (induction n rule: less_induct)
  case (less n)
  show ?case
  proof (cases "even n")
    case True
    then obtain m where m: "n = 2 * m" by (auto elim: evenE)
    with less.prems have mpos: "0 < m" and mlt: "m < n" by auto
    have pred: "n - 1 = 2 * (m - 1) + 1" using m mpos by simp
    have "n AND (n - 1) = 2 * (m AND (m - 1))"
      unfolding pred unfolding m by (subst and_rec) simp
    then have "(n AND (n - 1) = 0) \<longleftrightarrow> (m AND (m - 1) = 0)" by simp
    also have "\<dots> \<longleftrightarrow> (\<exists>k. m = 2 ^ k)" using less.IH [OF mlt mpos] .
    also have "\<dots> \<longleftrightarrow> (\<exists>k. n = 2 ^ k)"
    proof
      assume "\<exists>k. m = 2 ^ k"
      then obtain k where "m = 2 ^ k" ..
      then have "n = 2 ^ Suc k" using m by simp
      then show "\<exists>k. n = 2 ^ k" ..
    next
      assume "\<exists>k. n = 2 ^ k"
      then obtain k where k: "n = 2 ^ k" ..
      with True less.prems have "k \<noteq> 0" by (cases k) auto
      then obtain j where "k = Suc j" by (cases k) auto
      with k m have "m = 2 ^ j" by simp
      then show "\<exists>k. m = 2 ^ k" ..
    qed
    finally show ?thesis .
  next
    case False
    then obtain m where m: "n = 2 * m + 1" by (auto elim: oddE)
    have "n AND (n - 1) = 2 * m"
      unfolding m by (subst and_rec) simp
    then have l: "(n AND (n - 1) = 0) \<longleftrightarrow> m = 0" by simp
    have r: "(\<exists>k. n = 2 ^ k) \<longleftrightarrow> m = 0"
    proof
      assume "\<exists>k. n = 2 ^ k"
      then obtain k where k: "n = 2 ^ k" ..
      with False have "k = 0" by (cases k) auto
      with k m show "m = 0" by simp
    next
      assume "m = 0"
      with m have "n = 2 ^ 0" by simp
      then show "\<exists>k. n = 2 ^ k" ..
    qed
    from l r show ?thesis by simp
  qed
qed

lemma unat_exp64: "k < 64 \<Longrightarrow> unat ((2::64 word) ^ k) = 2 ^ k"
proof -
  assume k: "k < 64"
  have "(2::nat) ^ k < 2 ^ 64" using k by (intro power_strict_increasing) simp_all
  moreover have "(2::64 word) ^ k = word_of_nat (2 ^ k)" by simp
  ultimately show ?thesis by (simp only: unat_of_nat) simp
qed

lemma IsPowerOfTwo_iff_exp: "IsPowerOfTwo v \<longleftrightarrow> (\<exists>k<64. v = 2 ^ k)"
proof -
  show ?thesis
  proof (cases "v = 0")
    case True
    then show ?thesis by (auto simp: IsPowerOfTwo_def)
  next
    case False
    then have pos: "0 < unat v" by (simp add: unat_gt_0)
    have u1: "unat (v - 1) = unat v - 1" using False by (simp add: unat_minus_one)
    have "(v AND (v - 1) = 0) \<longleftrightarrow> (unat (v AND (v - 1)) = 0)" by (simp add: unat_eq_0)
    also have "\<dots> \<longleftrightarrow> (unat v AND (unat v - 1) = 0)" by (simp add: unsigned_and_eq u1)
    also have "\<dots> \<longleftrightarrow> (\<exists>k. unat v = 2 ^ k)" by (rule nat_and_pred_a [OF pos])
    also have "\<dots> \<longleftrightarrow> (\<exists>k<64. v = 2 ^ k)"
    proof
      assume "\<exists>k. unat v = 2 ^ k"
      then obtain k where k: "unat v = 2 ^ k" ..
      have "unat v < 2 ^ 64" using unsigned_less [of v] by simp
      with k have "(2::nat) ^ k < 2 ^ 64" by simp
      then have klt: "k < 64" by (rule power_less_imp_less_exp [rotated]) simp
      moreover have "v = 2 ^ k" using k klt by (simp add: word_unat_eq_iff unat_exp64)
      ultimately show "\<exists>k<64. v = 2 ^ k" by blast
    next
      assume "\<exists>k<64. v = 2 ^ k"
      then obtain k where "k < 64" "v = 2 ^ k" by blast
      then have "unat v = 2 ^ k" by (simp add: unat_exp64)
      then show "\<exists>k. unat v = 2 ^ k" ..
    qed
    finally show ?thesis using False by (simp add: IsPowerOfTwo_def word_gt_0)
  qed
qed

lemma one_bit_iff_exp: "card {n. bit (v::64 word) n} = 1 \<longleftrightarrow> (\<exists>k<64. v = 2 ^ k)"
proof
  assume "card {n. bit v n} = 1"
  then obtain k where k: "{n. bit v n} = {k}" by (auto simp: card_1_singleton_iff)
  then have "bit v k" by blast
  then have klt: "k < 64" using bit_imp_le_length [of v k] by simp
  have "v = 2 ^ k"
  proof (rule bit_eqI)
    fix n
    have "bit v n \<longleftrightarrow> n = k" using k by blast
    then show "bit v n \<longleftrightarrow> bit ((2::64 word) ^ k) n" using klt by (auto simp: bit_exp_iff)
  qed
  with klt show "\<exists>k<64. v = 2 ^ k" by blast
next
  assume "\<exists>k<64. v = 2 ^ k"
  then obtain k where klt: "k < 64" and v: "v = 2 ^ k" by blast
  have "{n. bit v n} = {k}" using klt by (auto simp: v bit_exp_iff)
  then show "card {n. bit v n} = 1" by simp
qed

lemma powers_loop_correct:
  "1 \<le> i \<Longrightarrow> i \<le> n \<Longrightarrow> length ps = n \<Longrightarrow> (\<forall>j<i. ps ! j = fr_Exp x j) \<Longrightarrow>
   powers_loop x n i ps = Inr (map (fr_Exp x) [0..<n])"
proof (induction x n i ps rule: powers_loop.induct)
  case (1 x n i powers)
  show ?case
  proof (cases "i < n")
    case True
    let ?ps = "powers[i := fr_Mul (powers ! (i - 1)) x]"
    have prev: "powers ! (i - 1) = fr_Exp x (i - 1)" using "1.prems" by simp
    have new: "fr_Mul (powers ! (i - 1)) x = fr_Exp x i"
    proof -
      have "fr_Mul (fr_Exp x (i - 1)) x = (x ^ (i - 1) * x) mod fr_modulus"
        by (simp add: fr_Mul_def fr_Exp_def mod_mult_left_eq)
      also have "x ^ (i - 1) * x = x ^ i" using "1.prems"(1) by (cases i) simp_all
      finally show ?thesis using prev by (simp add: fr_Exp_def)
    qed
    have inv: "\<forall>j<i + 1. ?ps ! j = fr_Exp x j"
      using "1.prems" True new by (auto simp: nth_list_update less_Suc_eq)
    have "powers_loop x n (i + 1) ?ps = Inr (map (fr_Exp x) [0..<n])"
      using "1.IH" [of] True "1.prems" inv by simp
    then show ?thesis using True "1.prems" by (subst powers_loop.simps) simp
  next
    case False
    with "1.prems" have "i = n" by simp
    have "powers = map (fr_Exp x) [0..<n]"
      using "1.prems" \<open>i = n\<close> by (intro nth_equalityI) auto
    then show ?thesis using False by (subst powers_loop.simps) simp
  qed
qed

lemma ComputePowers_pos:
  "0 < n \<Longrightarrow> n \<le> int max_len \<Longrightarrow>
   ComputePowers max_len x n = Inr (map (fr_Exp x) [0..<nat n])"
proof -
  assume n: "0 < n" and m: "n \<le> int max_len"
  let ?ps = "(replicate (nat n) fr_zero)[0 := fr_One]"
  have "\<forall>j<1. ?ps ! j = fr_Exp x j" using n fr_modulus_gt1
    by (simp add: fr_Exp_def fr_One_def)
  then have "powers_loop x (nat n) 1 ?ps = Inr (map (fr_Exp x) [0..<nat n])"
    using n by (intro powers_loop_correct) auto
  then show ?thesis using n m by (simp add: ComputePowers_def Let_def)
qed

lemma bitlen_exp: "bitlen (2 ^ k) = Suc k"
  by (induction k) (simp_all add: bitlen.simps)

lemma float64_of_uint64_exp:
  assumes "k < 64" shows "float64_of_uint64 (2 ^ k) = 2 ^ k"
proof -
  have u: "unat ((2::64 word) ^ k) = 2 ^ k" using assms by (rule unat_exp64)
  show ?thesis
  proof (cases "Suc k \<le> 53")
    case True
    then show ?thesis by (simp add: float64_of_uint64_def u bitlen_exp Let_def)
  next
    case False
    define sh where "sh = Suc k - 53"
    have sh: "sh \<le> k" "0 < sh" using False by (simp_all add: sh_def)
    have q: "(2::nat) ^ k div 2 ^ sh = 2 ^ (k - sh)" using sh by (simp add: power_diff)
    have r: "(2::nat) ^ k mod 2 ^ sh = 0" using sh by (simp add: le_imp_power_dvd)
    have e: "even ((2::nat) ^ (k - sh))" using False by (simp add: sh_def)
    have m: "(2::nat) ^ (k - sh) * 2 ^ sh = 2 ^ k" using sh by (simp flip: power_add)
    have "float64_of_uint64 (2 ^ k) =
      (if (2::nat) ^ k mod 2 ^ sh > 2 ^ (sh - 1) \<or>
          ((2::nat) ^ k mod 2 ^ sh = 2 ^ (sh - 1) \<and> odd ((2::nat) ^ k div 2 ^ sh))
       then 2 ^ k div 2 ^ sh + 1 else 2 ^ k div 2 ^ sh) * 2 ^ sh"
      unfolding float64_of_uint64_def u bitlen_exp Let_def sh_def using False by simp
    also have "\<dots> = 2 ^ (k - sh) * 2 ^ sh" unfolding q r using e by simp
    finally show ?thesis using m by simp
  qed
qed

lemma Log2_int_exp: "Log2_int f (2 ^ k) = int k"
  by (simp add: Log2_int_def bitlen_exp Let_def)

lemma square_loop_eq:
  "square_loop i pow y = (if i < pow then y ^ (2 ^ nat (pow - i)) mod fr_modulus else y)"
proof (induction i pow y rule: square_loop.induct)
  case (1 i pow y)
  show ?case
  proof (cases "i < pow")
    case True
    note IH = "1.IH" [OF True]
    show ?thesis
    proof (cases "i + 1 < pow")
      case True
      have "nat (pow - i) = Suc (nat (pow - (i + 1)))" using True by simp
      then have "y ^ (2 ^ nat (pow - i)) = (y * y) ^ (2 ^ nat (pow - (i + 1)))"
        by (simp add: power_mult power2_eq_square)
      moreover have "(y * y mod fr_modulus) ^ (2 ^ nat (pow - (i + 1))) mod fr_modulus
         = (y * y) ^ (2 ^ nat (pow - (i + 1))) mod fr_modulus"
        by (simp add: power_mod)
      ultimately show ?thesis using IH True \<open>i < pow\<close>
        by (subst square_loop.simps) (simp add: fr_Square_def fr_Mul_def)
    next
      case False
      with True have "nat (pow - i) = 1" by simp
      then show ?thesis using IH True False
        by (subst square_loop.simps) (simp add: fr_Square_def fr_Mul_def power2_eq_square)
    qed
  next
    case False
    then show ?thesis by (subst square_loop.simps) simp
  qed
qed

lemma Pow2_exp:
  assumes "k < 64"
  shows "Pow2 f x (2 ^ k) = Inr (if k = 0 then fr_One else fr_Exp x (2 ^ k))"
proof -
  have "IsPowerOfTwo (2 ^ k)" using assms IsPowerOfTwo_iff_exp by blast
  then show ?thesis using assms
    by (simp add: Pow2_def float64_of_uint64_exp Log2_int_exp square_loop_eq fr_Exp_def)
qed

text \<open>
  C6. For every \<open>uint64\<close> value \<open>v\<close>, \<open>IsPowerOfTwo v\<close> holds exactly when \<open>v\<close> is positive
  and has exactly one set bit; in particular \<open>IsPowerOfTwo 0\<close> is false.
\<close>
theorem IsPowerOfTwo_one_set_bit:
  "(IsPowerOfTwo v \<longleftrightarrow> 0 < v \<and> card {n. bit v n} = 1) \<and> IsPowerOfTwo 0 = False"
proof -
  have "\<exists>k<64. v = 2 ^ k \<Longrightarrow> 0 < v" by (auto simp: word_gt_0)
  then show ?thesis
    unfolding one_bit_iff_exp IsPowerOfTwo_iff_exp by (auto simp: IsPowerOfTwo_def)
qed

text \<open>
  C2. For every field element \<open>x\<close>, \<open>Pow2(x, 1)\<close> returns the multiplicative identity,
  whatever \<open>x\<close> is.
\<close>
theorem Pow2_exp_one: "Pow2 log_inexact x 1 = Inr fr_One"
  using Pow2_exp [of 0 log_inexact x] by simp

text \<open>
  C1. For every field element \<open>x\<close> and every exponent \<open>2^k\<close> with \<open>1 \<le> k \<le> 63\<close> (the
  powers of two above 1 that a \<open>uint64\<close> holds), \<open>Pow2(x, 2^k)\<close> returns \<open>x^(2^k)\<close>, the
  result of the independent exponentiation. The exponent \<open>2^0 = 1\<close> is left out: there
  the guard \<open>if pow == 0\<close> answers the multiplicative identity (C2), as the
  counterexample below shows at \<open>x = 2\<close>. In the closed instances the parameter of the
  inexact branch of \<open>math.Log2\<close>, which a power of two never reaches, is \<open>int\<close>.
\<close>
theorem Pow2_power_of_two:
  "0 < k \<Longrightarrow> k < 64 \<Longrightarrow> Pow2 log_inexact x (2 ^ k) = Inr (fr_Exp x (2 ^ k))"
  using Pow2_exp [of k log_inexact x] by simp

theorem Pow2_power_of_two_witness:
  "(0::nat) < 4 \<and> (4::nat) < 64 \<and> Pow2 int 123 (2 ^ 4) = Inr (fr_Exp 123 (2 ^ 4))"
  using Pow2_power_of_two [of 4 int 123] by simp

theorem Pow2_exp_one_counterexample:
  "Pow2 int 2 (2 ^ 0) \<noteq> Inr (fr_Exp 2 (2 ^ 0))"
  using Pow2_exp [of 0 int 2] by (simp add: fr_One_def fr_Exp_def fr_modulus_def)

text \<open>
  C3. The claim that \<open>ComputePowers(x, 0)\<close> returns an empty sequence without error,
  evaluated: \<open>powers[0].SetOne()\<close> indexes the empty slice, so the call panics with an
  index out of range (index 0, length 0) for every \<open>x\<close>, whatever the runtime can
  allocate.
\<close>
theorem ComputePowers_zero_panics: "ComputePowers max_len x 0 = Inl (IndexOutOfRange 0 0)"
  by (simp add: ComputePowers_def)

text \<open>
  C4. The claim that \<open>ComputePowers(x, n)\<close> returns the \<open>n\<close> powers of \<open>x\<close> for every
  \<open>n \<ge> 0\<close>, evaluated at \<open>x = 123\<close>, \<open>n = 0\<close>: no sequence is returned at all. For
  every \<open>n > 0\<close> that the runtime can allocate the sequence is the claimed one (lemma
  \<open>ComputePowers_pos\<close>).
\<close>
theorem ComputePowers_zero_no_sequence:
  "\<not> (\<exists>powers. ComputePowers max_len 123 0 = Inr powers)"
  by (simp add: ComputePowers_def)

lemma square_loop_funpow:
  "0 \<le> pow \<Longrightarrow> i \<le> pow \<Longrightarrow> square_loop i pow y = (fr_Square ^^ nat (pow - i)) y"
proof (induction i pow y rule: square_loop.induct)
  case (1 i pow y)
  show ?case
  proof (cases "i < pow")
    case True
    then have "nat (pow - i) = Suc (nat (pow - (i + 1)))" by simp
    then show ?thesis using "1.IH" [OF True] "1.prems" True
      by (subst square_loop.simps) (simp add: funpow_swap1)
  next
    case False
    then show ?thesis using "1.prems" by (subst square_loop.simps) simp
  qed
qed

text \<open>
  C10. For every field element \<open>x\<close> and every power of two \<open>exp \<ge> 2\<close> (up to \<open>2^63\<close>),
  the squaring count \<open>pow\<close> that \<open>Pow2\<close> computes through \<open>float64\<close> and \<open>math.Log2\<close>
  is the exact logarithm (\<open>2^pow = exp\<close>), the loop squares exactly \<open>pow\<close> times, and
  \<open>Pow2(x, exp)\<close> returns \<open>x^exp\<close>.
\<close>
theorem Pow2_ge_two:
  assumes "IsPowerOfTwo exp" and "2 \<le> exp"
  shows "\<exists>pow. Log2_int log_inexact (float64_of_uint64 exp) = int pow \<and> 2 ^ pow = unat exp \<and>
           square_loop 0 (int pow) x = (fr_Square ^^ pow) x \<and>
           Pow2 log_inexact x exp = Inr (fr_Exp x (unat exp))"
proof -
  from assms(1) obtain k where k: "k < 64" "exp = 2 ^ k" unfolding IsPowerOfTwo_iff_exp by blast
  have "k \<noteq> 0" using assms(2) k by (intro notI) (simp add: word_le_nat_alt)
  have "Log2_int log_inexact (float64_of_uint64 exp) = int k"
    using k by (simp add: float64_of_uint64_exp Log2_int_exp)
  moreover have "2 ^ k = unat exp" using k by (simp add: unat_exp64)
  moreover have "square_loop 0 (int k) x = (fr_Square ^^ k) x"
    using square_loop_funpow [of "int k" 0 x] by simp
  moreover have "Pow2 log_inexact x exp = Inr (fr_Exp x (unat exp))"
    using Pow2_exp [OF k(1), of log_inexact x] k \<open>k \<noteq> 0\<close> by (simp add: unat_exp64)
  ultimately show ?thesis by blast
qed

theorem Pow2_ge_two_witness:
  "IsPowerOfTwo 16 \<and> (2::64 word) \<le> 16 \<and> Pow2 (\<lambda>_. 0) 123 16 = Inr (fr_Exp 123 16)"
  using Pow2_ge_two [of 16 "\<lambda>_. 0" 123] by (auto simp: IsPowerOfTwo_def)

text \<open>
  C5. \<open>Pow2(x, exp)\<close> panics, with its descriptive message, exactly when \<open>exp\<close> fails
  \<open>IsPowerOfTwo\<close>: an exponent that is not a power of two is never coerced to a result,
  and for a power of two the call returns a field element.
\<close>
theorem Pow2_panic_iff:
  "(\<not> IsPowerOfTwo exp \<longrightarrow>
      Pow2 log_inexact x exp =
        Inl (Panic ''The domain should always be a power of two, for our use-case'')) \<and>
   (IsPowerOfTwo exp \<longrightarrow> (\<exists>result. Pow2 log_inexact x exp = Inr result))"
  by (simp add: Pow2_def Let_def)

theorem Pow2_panic_iff_witness:
  "\<not> IsPowerOfTwo 12 \<and>
   Pow2 (\<lambda>_. 0) 5 12 = Inl (Panic ''The domain should always be a power of two, for our use-case'') \<and>
   IsPowerOfTwo 8 \<and> (\<exists>result. Pow2 (\<lambda>_. 0) 5 8 = Inr result)"
  using Pow2_panic_iff [of 12 "\<lambda>_. 0" 5] Pow2_panic_iff [of 8 "\<lambda>_. 0" 5]
  by (simp add: IsPowerOfTwo_def)

section \<open>Properties of the modelled functions\<close>

lemma BigInt_SetBytes_sum:
  "BigInt_SetBytes acc bs = acc * 256 ^ length bs + big_endian_value bs"
proof (induction bs arbitrary: acc)
  case Nil
  show ?case by (simp add: big_endian_value_def)
next
  case (Cons b bs)
  have "big_endian_value (b # bs) =
      (\<Sum>i<Suc (length bs). unat ((b # bs) ! i) * 256 ^ (length bs - i))"
    by (simp add: big_endian_value_def)
  also have "\<dots> = unat b * 256 ^ length bs + big_endian_value bs"
    unfolding big_endian_value_def by (subst sum.lessThan_Suc_shift) simp
  finally show ?case by (simp add: Cons.IH algebra_simps)
qed

text \<open>
  C7. For every big-endian byte buffer \<open>ReduceCanonical\<close> returns a result (it is total):
  the field element that is the buffer's integer value reduced modulo the field modulus,
  and a flag that is true exactly when that integer value is strictly below the modulus.
\<close>

theorem ReduceCanonical_total:
  "ReduceCanonical bs = (big_endian_value bs mod fr_modulus, big_endian_value bs < fr_modulus)
   \<and> fst (ReduceCanonical bs) < fr_modulus"
  using fr_modulus_gt1 by (simp add: ReduceCanonical_def BigInt_SetBytes_sum Let_def)

lemma bitrev_less: "bitrev b i < 2 ^ b"
proof (induction b arbitrary: i)
  case 0
  show ?case by simp
next
  case (Suc b)
  have "i mod 2 * 2 ^ b \<le> 1 * 2 ^ b" by (intro mult_right_mono) simp_all
  with Suc [of "i div 2"] show ?case unfolding bitrev.simps power_Suc by linarith
qed

lemma bitrev_top:
  "l < 2 ^ b \<Longrightarrow> h < 2 \<Longrightarrow> bitrev (Suc b) (h * 2 ^ b + l) = 2 * bitrev b l + h"
proof (induction b arbitrary: l)
  case 0
  then show ?case by simp
next
  case (Suc c)
  have d: "(h * 2 ^ Suc c + l) div 2 = h * 2 ^ c + l div 2" by simp
  have "h * 2 ^ Suc c + l = l + 2 * (h * 2 ^ c)" by simp
  then have m: "(h * 2 ^ Suc c + l) mod 2 = l mod 2" by (simp only: mod_mult_self2)
  have "l div 2 < 2 ^ c" using Suc.prems(1) by simp
  then have IH: "bitrev (Suc c) (h * 2 ^ c + l div 2) = 2 * bitrev c (l div 2) + h"
    using Suc.IH Suc.prems(2) by blast
  have "bitrev (Suc (Suc c)) (h * 2 ^ Suc c + l)
      = (l mod 2) * 2 ^ Suc c + bitrev (Suc c) (h * 2 ^ c + l div 2)"
    by (subst bitrev.simps) (simp only: d m)
  also have "\<dots> = (l mod 2) * 2 ^ Suc c + (2 * bitrev c (l div 2) + h)" by (simp only: IH)
  also have "\<dots> = 2 * bitrev (Suc c) l + h" by simp
  finally show ?case .
qed

lemma bitrev_involution: "i < 2 ^ b \<Longrightarrow> bitrev b (bitrev b i) = i"
proof (induction b arbitrary: i)
  case 0
  then show ?case by simp
next
  case (Suc b)
  have q: "i div 2 < 2 ^ b" using Suc.prems by simp
  have "bitrev (Suc b) (bitrev (Suc b) i)
      = bitrev (Suc b) ((i mod 2) * 2 ^ b + bitrev b (i div 2))" by simp
  also have "\<dots> = 2 * bitrev b (bitrev b (i div 2)) + i mod 2"
    by (rule bitrev_top) (simp_all add: bitrev_less)
  also have "\<dots> = 2 * (i div 2) + i mod 2" by (simp add: Suc.IH [OF q])
  also have "\<dots> = i" by simp
  finally show ?case .
qed

lemma bitrev_loop_inv:
  fixes xs :: "fr list"
  shows "j \<le> 2 ^ k \<Longrightarrow> length s = 2 ^ k \<Longrightarrow>
    (\<forall>i<2 ^ k. s ! i = (if i < j \<or> bitrev k i < j then xs ! bitrev k i else xs ! i)) \<Longrightarrow>
    bitrev_loop k (2 ^ k) j s = map (\<lambda>i. xs ! bitrev k i) [0..<2 ^ k]"
proof (induction "2 ^ k - j" arbitrary: j s)
  case 0
  then have j: "j = 2 ^ k" by simp
  have "s = map (\<lambda>i. xs ! bitrev k i) [0..<2 ^ k]"
    using "0.prems" j by (intro nth_equalityI) simp_all
  then show ?case using j by (subst bitrev_loop.simps) simp
next
  case (Suc d)
  then have jlt: "j < 2 ^ k" by simp
  define r where "r = bitrev k j"
  have rlt: "r < 2 ^ k" unfolding r_def by (rule bitrev_less)
  have rr: "bitrev k r = j" unfolding r_def using jlt by (rule bitrev_involution)
  define s' where "s' = (if j < r then s[j := s ! r, r := s ! j] else s)"
  have len: "length s' = 2 ^ k" using Suc.prems(2) by (simp add: s'_def)
  have sj: "s ! j = (if r < j then xs ! r else xs ! j)"
    using Suc.prems(3) jlt by (simp add: r_def)
  have sr: "s ! r = (if r < j then xs ! j else xs ! r)"
    using Suc.prems(3) rlt rr by simp
  have inv': "\<forall>i<2 ^ k. s' ! i =
      (if i < Suc j \<or> bitrev k i < Suc j then xs ! bitrev k i else xs ! i)"
  proof (intro allI impI)
    fix i :: nat
    assume i: "i < 2 ^ k"
    have inj: "bitrev k i = j \<longleftrightarrow> i = r"
      using bitrev_involution [OF i] rr r_def by auto
    have si: "s ! i = (if i < j \<or> bitrev k i < j then xs ! bitrev k i else xs ! i)"
      using Suc.prems(3) i by simp
    consider (a) "i = j" | (b) "i = r" "i \<noteq> j" | (c) "i \<noteq> j" "i \<noteq> r" by blast
    then show "s' ! i = (if i < Suc j \<or> bitrev k i < Suc j then xs ! bitrev k i else xs ! i)"
    proof cases
      case a
      then show ?thesis using sj sr jlt rlt Suc.prems(2)
        by (auto simp: s'_def nth_list_update r_def [symmetric])
    next
      case b
      then show ?thesis using sj sr jlt rlt rr Suc.prems(2)
        by (auto simp: s'_def nth_list_update)
    next
      case c
      then have "bitrev k i \<noteq> j" using inj by simp
      then have "(i < Suc j \<or> bitrev k i < Suc j) \<longleftrightarrow> (i < j \<or> bitrev k i < j)"
        using c(1) by (auto simp: less_Suc_eq)
      moreover have "s' ! i = s ! i" using c by (simp add: s'_def)
      ultimately show ?thesis using si by simp
    qed
  qed
  have d: "d = 2 ^ k - Suc j" using Suc.hyps(2) by simp
  have "bitrev_loop k (2 ^ k) (Suc j) s' = map (\<lambda>i. xs ! bitrev k i) [0..<2 ^ k]"
    using Suc.hyps(1) [OF d _ len inv'] jlt by simp
  then have "bitrev_loop k (2 ^ k) (Suc j)
      (if j < bitrev k j then s[j := s ! bitrev k j, bitrev k j := s ! j] else s) =
      map (\<lambda>i. xs ! bitrev k i) [0..<2 ^ k]"
    unfolding s'_def r_def .
  then show ?case using jlt
    by (subst bitrev_loop.simps) (simp add: Let_def)
qed

lemma BitReverseRoots_pow2:
  assumes "length xs = 2 ^ k"
  shows "BitReverseRoots xs = Inr (map (\<lambda>i. xs ! bitrev k i) [0..<2 ^ k])"
proof -
  have "bitrev_loop k (2 ^ k) 0 xs = map (\<lambda>i. xs ! bitrev k i) [0..<2 ^ k]"
    using assms by (intro bitrev_loop_inv) simp_all
  then show ?thesis using assms by (simp add: BitReverseRoots_def bitlen_exp)
qed

text \<open>
  C9. For every sequence of field elements whose length is a power of two,
  \<open>BitReverseRoots\<close> returns, and applying it to its result returns the original sequence.
\<close>

theorem BitReverseRoots_twice:
  assumes "length xs = 2 ^ k"
  shows "\<exists>ys. BitReverseRoots xs = Inr ys \<and> BitReverseRoots ys = Inr xs"
proof -
  let ?ys = "map (\<lambda>i. xs ! bitrev k i) [0..<2 ^ k]"
  have 1: "BitReverseRoots xs = Inr ?ys" using assms by (rule BitReverseRoots_pow2)
  have "length ?ys = 2 ^ k" by simp
  then have "BitReverseRoots ?ys = Inr (map (\<lambda>i. ?ys ! bitrev k i) [0..<2 ^ k])"
    by (rule BitReverseRoots_pow2)
  also have "map (\<lambda>i. ?ys ! bitrev k i) [0..<2 ^ k] = xs"
    using assms by (intro nth_equalityI) (simp_all add: bitrev_less bitrev_involution)
  finally show ?thesis using 1 by blast
qed

theorem BitReverseRoots_twice_witness:
  "length [0, 1, 2, 3, 4, 5, 6, 7 :: fr] = 2 ^ 3 \<and>
   BitReverseRoots [0, 1, 2, 3, 4, 5, 6, 7] = Inr [0, 4, 2, 6, 1, 5, 3, 7] \<and>
   BitReverseRoots [0, 4, 2, 6, 1, 5, 3, 7] = Inr [0, 1, 2, 3, 4, 5, 6, 7]"
proof -
  have e: "BitReverseRoots [0, 1, 2, 3, 4, 5, 6, 7] = Inr [0, 4, 2, 6, 1, 5, 3, 7]"
    by code_simp
  show ?thesis using BitReverseRoots_twice [of "[0, 1, 2, 3, 4, 5, 6, 7]" 3] e by simp
qed

lemma batch_invert_correct:
  "acc \<noteq> 0 \<Longrightarrow> batch_invert acc zs = (inverse acc, map inverse zs)"
proof (induction zs arbitrary: acc)
  case Nil
  show ?case by simp
next
  case (Cons z zs)
  show ?case
  proof (cases "z = 0")
    case True
    then show ?thesis using Cons.IH [OF Cons.prems] by simp
  next
    case False
    have nz: "acc * z \<noteq> 0" using Cons.prems False by simp
    have 1: "inverse (acc * z) * z = inverse acc"
      using Cons.prems False by (simp add: field_simps)
    have 2: "acc * inverse (acc * z) = inverse z"
      using Cons.prems False by (simp add: field_simps)
    show ?thesis using False Cons.IH [OF nz] 1 2 by simp
  qed
qed

lemma map2_same: "map2 f xs (map g xs) = map (\<lambda>x. f x (g x)) xs"
  by (induction xs) simp_all

text \<open>
  C8. For every batch of Jacobian points, with points at infinity at any positions,
  \<open>BatchFromJacobian\<close> returns a batch of the same length whose element at every index is
  the single-point conversion of the input point at that index.
\<close>

theorem BatchFromJacobian_pointwise:
  "BatchFromJacobian infinity points = map (FromJacobian infinity) points \<and>
   length (BatchFromJacobian infinity points) = length points"
proof -
  have "batch_invert 1 (map jac_Z points) = (inverse 1, map inverse (map jac_Z points))"
    by (rule batch_invert_correct) simp
  then have "BatchFromJacobian infinity points =
      map (\<lambda>p. if jac_Z p = 0 then infinity
               else let b = inverse (jac_Z p) * inverse (jac_Z p)
                    in G1Affine (jac_X p * b) (jac_Y p * b * inverse (jac_Z p))) points"
    using map2_same [of _ points "\<lambda>p. inverse (jac_Z p)"]
    by (simp add: BatchFromJacobian_def comp_def)
  also have "\<dots> = map (FromJacobian infinity) points"
    by (simp add: FromJacobian_def Let_def)
  finally show ?thesis by simp
qed

end
